theory Spec2Isabelle
  imports Main
begin

section \<open>Text primitives of the two scripts\<close>

text \<open>
  Both scripts work on Python \<open>str\<close> values. A text is modelled as a \<open>string\<close>; a
  \<open>char\<close> stands for the code point of the same number, so the model covers texts
  whose code points lie in U+0000..U+00FF. The character classes below are those of
  Python's \<open>re\<close> module on \<open>str\<close> patterns (Unicode tables) restricted to that range.
\<close>

definition is_space :: "char \<Rightarrow> bool" where
  \<comment> \<open>\<open>\s\<close> and \<open>str.isspace\<close>: TAB..CR, FS..US, SPACE, NEL, NBSP\<close>
  "is_space c =
     (let n = (of_char c :: nat)
      in (9 \<le> n \<and> n \<le> 13) \<or> (28 \<le> n \<and> n \<le> 32) \<or> n = 133 \<or> n = 160)"

definition is_digit :: "char \<Rightarrow> bool" where
  \<comment> \<open>\<open>\d\<close>: the decimal digits\<close>
  "is_digit c = (let n = (of_char c :: nat) in 48 \<le> n \<and> n \<le> 57)"

definition is_word :: "char \<Rightarrow> bool" where
  \<comment> \<open>\<open>\w\<close>: alphanumeric code points and the underscore\<close>
  "is_word c =
     (let n = (of_char c :: nat)
      in (48 \<le> n \<and> n \<le> 57) \<or> (65 \<le> n \<and> n \<le> 90) \<or> n = 95 \<or> (97 \<le> n \<and> n \<le> 122)
         \<or> n = 170 \<or> n = 178 \<or> n = 179 \<or> n = 181 \<or> n = 185 \<or> n = 186
         \<or> (188 \<le> n \<and> n \<le> 190) \<or> (192 \<le> n \<and> n \<le> 214)
         \<or> (216 \<le> n \<and> n \<le> 246) \<or> (248 \<le> n \<and> n \<le> 255))"

definition not_space :: "char \<Rightarrow> bool" where
  \<comment> \<open>\<open>[^\s]\<close>\<close>
  "not_space c = (\<not> is_space c)"

definition word_or_hyphen :: "char \<Rightarrow> bool" where
  \<comment> \<open>\<open>[\w-]\<close>\<close>
  "word_or_hyphen c = (is_word c \<or> c = CHR ''-'')"

definition any_char :: "char \<Rightarrow> bool" where
  \<comment> \<open>\<open>.\<close> without DOTALL: everything but the newline\<close>
  "any_char c = (c \<noteq> CHR 0x0A)"

definition strip :: "string \<Rightarrow> string" where
  \<comment> \<open>\<open>str.strip()\<close>: whitespace removed at both ends\<close>
  "strip s = rev (dropWhile is_space (rev (dropWhile is_space s)))"

fun split_on :: "char \<Rightarrow> string \<Rightarrow> string list" where
  \<comment> \<open>\<open>str.split(sep)\<close> for a one-character separator: never an empty result\<close>
  "split_on c [] = [[]]"
| "split_on c (x # xs) =
     (if x = c then [] # split_on c xs
      else (case split_on c xs of
              [] \<Rightarrow> [[x]]
            | w # ws \<Rightarrow> (x # w) # ws))"

definition startswith :: "string \<Rightarrow> string \<Rightarrow> bool" where
  \<comment> \<open>\<open>s.startswith(p)\<close>\<close>
  "startswith s p = (take (length p) s = p)"

fun contains :: "string \<Rightarrow> string \<Rightarrow> bool" where
  \<comment> \<open>\<open>p in s\<close> on strings: \<open>p\<close> occurs in \<open>s\<close> as a contiguous piece\<close>
  "contains p [] = (p = [])"
| "contains p (x # xs) = (startswith (x # xs) p \<or> contains p xs)"

section \<open>The regular expressions\<close>

text \<open>
  The patterns of the scripts use anchors, literal characters, \<open>+\<close> and \<open>+?\<close> on a
  character class, capture groups and one alternation. A compiled pattern is a list of
  items matched left to right by backtracking, the way \<open>re\<close> does it: a greedy repeat
  tries the longest run first, a lazy repeat the shortest, an alternation its left
  branch first; the first complete match wins. \<open>Open_grp n\<close> and \<open>Close_grp n\<close> are
  the marks of capture group \<open>n\<close>. \<open>Star\<close> and \<open>StarLazy\<close> are what is left of a
  \<open>+\<close> or \<open>+?\<close> after its first character.
\<close>

datatype item =
    Bol
  | Eol
  | Lit char
  | Plus "char \<Rightarrow> bool"
  | Star "char \<Rightarrow> bool"
  | PlusLazy "char \<Rightarrow> bool"
  | StarLazy "char \<Rightarrow> bool"
  | Open_grp nat
  | Close_grp nat
  | Branch "item list" "item list"

fun weight :: "item \<Rightarrow> nat" where
  "weight (Branch a b) = Suc (sum_list (map weight a) + sum_list (map weight b))"
| "weight (Plus c) = 2"
| "weight (PlusLazy c) = 2"
| "weight _ = 1"

type_synonym marks = "(nat \<times> string) list"
type_synonym caps = "(nat \<times> string) list"

text \<open>
  \<open>bt items pos s mk cp\<close>: match \<open>items\<close> against the rest \<open>s\<close> of the subject, \<open>pos\<close>
  characters into it; \<open>mk\<close> holds, for each opened group, the rest of the subject at
  its opening, \<open>cp\<close> the groups captured so far (latest first). The result is the
  captures of the first match found, or \<open>None\<close>. \<open>$\<close> matches at the end of the subject
  and before a newline that ends it.
\<close>

function bt :: "item list \<Rightarrow> nat \<Rightarrow> string \<Rightarrow> marks \<Rightarrow> caps \<Rightarrow> caps option" where
  "bt [] pos s mk cp = Some cp"
| "bt (Bol # r) pos s mk cp = (if pos = 0 then bt r pos s mk cp else None)"
| "bt (Eol # r) pos s mk cp =
     (if s = [] \<or> s = [CHR 0x0A] then bt r pos s mk cp else None)"
| "bt (Lit c # r) pos s mk cp =
     (case s of
        [] \<Rightarrow> None
      | x # xs \<Rightarrow> if x = c then bt r (Suc pos) xs mk cp else None)"
| "bt (Plus c # r) pos s mk cp =
     (case s of
        [] \<Rightarrow> None
      | x # xs \<Rightarrow> if c x then bt (Star c # r) (Suc pos) xs mk cp else None)"
| "bt (Star c # r) pos s mk cp =
     (case s of
        [] \<Rightarrow> bt r pos s mk cp
      | x # xs \<Rightarrow>
          if c x
          then (case bt (Star c # r) (Suc pos) xs mk cp of
                  Some res \<Rightarrow> Some res
                | None \<Rightarrow> bt r pos s mk cp)
          else bt r pos s mk cp)"
| "bt (PlusLazy c # r) pos s mk cp =
     (case s of
        [] \<Rightarrow> None
      | x # xs \<Rightarrow> if c x then bt (StarLazy c # r) (Suc pos) xs mk cp else None)"
| "bt (StarLazy c # r) pos s mk cp =
     (case bt r pos s mk cp of
        Some res \<Rightarrow> Some res
      | None \<Rightarrow>
          (case s of
             [] \<Rightarrow> None
           | x # xs \<Rightarrow> if c x then bt (StarLazy c # r) (Suc pos) xs mk cp else None))"
| "bt (Open_grp n # r) pos s mk cp = bt r pos s ((n, s) # mk) cp"
| "bt (Close_grp n # r) pos s mk cp =
     (case map_of mk n of
        None \<Rightarrow> None
      | Some s0 \<Rightarrow> bt r pos s mk ((n, take (length s0 - length s) s0) # cp))"
| "bt (Branch a b # r) pos s mk cp =
     (case bt (a @ r) pos s mk cp of
        Some res \<Rightarrow> Some res
      | None \<Rightarrow> bt (b @ r) pos s mk cp)"
  by pat_completeness auto
termination
  by (relation "inv_image (less_than <*lex*> less_than)
                  (\<lambda>(items, pos, s, mk, cp). (sum_list (map weight items), length s))") auto

definition re_match :: "item list \<Rightarrow> string \<Rightarrow> caps option" where
  \<comment> \<open>\<open>re.match(pattern, s)\<close>: a match starting at the first character\<close>
  "re_match p s = bt p 0 s [] []"

definition lit :: "string \<Rightarrow> item list" where
  "lit w = map Lit w"

definition rule_items :: "item list" where
  \<comment> \<open>\<open>@[\w-]+/[\w-]+\<close>\<close>
  "rule_items = [Lit CHR ''@'', Plus word_or_hyphen, Lit CHR ''/'', Plus word_or_hyphen]"

definition severity_items :: "item list" where
  \<comment> \<open>\<open>error|warning\<close>\<close>
  "severity_items = [Branch (lit ''error'') (lit ''warning'')]"

definition error_pattern :: "item list" where
  \<comment> \<open>\<open>^(/[^\s]+)\s+(\d+):(\d+)\s+(error|warning)\s+(.+?)\s+(@[\w-]+/[\w-]+)$\<close>\<close>
  "error_pattern =
     [Bol, Open_grp 1, Lit CHR ''/'', Plus not_space, Close_grp 1, Plus is_space,
      Open_grp 2, Plus is_digit, Close_grp 2, Lit CHR '':'',
      Open_grp 3, Plus is_digit, Close_grp 3, Plus is_space,
      Open_grp 4] @ severity_items @ [Close_grp 4, Plus is_space,
      Open_grp 5, PlusLazy any_char, Close_grp 5, Plus is_space,
      Open_grp 6] @ rule_items @ [Close_grp 6, Eol]"

definition finding_prefix :: "item list" where
  \<comment> \<open>\<open>^\s+\d+:\d+\s+(error|warning)\<close>\<close>
  "finding_prefix =
     [Bol, Plus is_space, Plus is_digit, Lit CHR '':'', Plus is_digit, Plus is_space,
      Open_grp 1] @ severity_items @ [Close_grp 1]"

definition finding_pattern :: "item list" where
  \<comment> \<open>\<open>^\s+(\d+):(\d+)\s+(error|warning)\s+(.+?)\s+(@[\w-]+/[\w-]+)$\<close>\<close>
  "finding_pattern =
     [Bol, Plus is_space,
      Open_grp 1, Plus is_digit, Close_grp 1, Lit CHR '':'',
      Open_grp 2, Plus is_digit, Close_grp 2, Plus is_space,
      Open_grp 3] @ severity_items @ [Close_grp 3, Plus is_space,
      Open_grp 4, PlusLazy any_char, Close_grp 4, Plus is_space,
      Open_grp 5] @ rule_items @ [Close_grp 5, Eol]"

section \<open>Paths\<close>

text \<open>
  \<open>Path(p).parts\<close> on a POSIX system: the root (\<open>/\<close>, or \<open>//\<close> for exactly two leading
  slashes) followed by the segments between slashes, empty segments and \<open>.\<close> left out.
\<close>

definition splitroot :: "string \<Rightarrow> string \<times> string" where
  "splitroot p =
     (if \<not> startswith p ''/'' then ([], p)
      else if \<not> startswith (drop 1 p) ''/'' \<or> startswith (drop 2 p) ''/'' then (''/'', drop 1 p)
      else (''//'', drop 2 p))"

definition parts :: "string \<Rightarrow> string list" where
  "parts p =
     (case splitroot p of
        (root, rel) \<Rightarrow>
          (if root = [] then [] else [root])
          @ filter (\<lambda>x. x \<noteq> [] \<and> x \<noteq> ''.'') (split_on CHR ''/'' rel))"

fun index_of :: "'a \<Rightarrow> 'a list \<Rightarrow> nat option" where
  \<comment> \<open>\<open>xs.index(x)\<close>: the first position of \<open>x\<close>; \<open>None\<close> where Python raises ValueError\<close>
  "index_of x [] = None"
| "index_of x (y # ys) = (if y = x then Some 0 else map_option Suc (index_of x ys))"

definition directory_of :: "string \<Rightarrow> string option" where
  \<comment> \<open>the directory a finding of \<open>file_path\<close> is counted under, if any\<close>
  "directory_of file_path =
     (let path_parts = parts file_path
      in if ''src'' \<in> set path_parts
         then (case index_of ''src'' path_parts of
                 None \<Rightarrow> None
               | Some src_index \<Rightarrow>
                   if src_index + 1 < length path_parts
                   then Some (path_parts ! (src_index + 1))
                   else None)
         else None)"

section \<open>Findings and aggregates\<close>

record finding =
  line :: string
  column :: string
  severity :: string
  message :: string
  rule :: string

text \<open>
  The dictionaries keep their keys in insertion order, which the report's sorting
  depends on: they are association lists with distinct keys, a new key added at the end.
\<close>

fun dict_incr :: "'k \<Rightarrow> ('k \<times> int) list \<Rightarrow> ('k \<times> int) list" where
  \<comment> \<open>\<open>d[k] += 1\<close> on a \<open>defaultdict(int)\<close>\<close>
  "dict_incr k [] = [(k, 0 + 1)]"
| "dict_incr k ((k', v) # d) = (if k' = k then (k', v + 1) # d else (k', v) # dict_incr k d)"

fun dict_append :: "'k \<Rightarrow> 'v \<Rightarrow> ('k \<times> 'v list) list \<Rightarrow> ('k \<times> 'v list) list" where
  \<comment> \<open>\<open>d[k].append(v)\<close> on a \<open>defaultdict(list)\<close>\<close>
  "dict_append k v [] = [(k, [] @ [v])]"
| "dict_append k v ((k', vs) # d) =
     (if k' = k then (k', vs @ [v]) # d else (k', vs) # dict_append k v d)"

definition dict_get :: "('k \<times> 'v) list \<Rightarrow> 'k \<Rightarrow> 'v \<Rightarrow> 'v" where
  \<comment> \<open>\<open>d.get(k, default)\<close>\<close>
  "dict_get d k dflt = (case map_of d k of None \<Rightarrow> dflt | Some v \<Rightarrow> v)"

record aggregates =
  errors_by_type :: "(string \<times> int) list"
  errors_by_file :: "(string \<times> finding list) list"
  errors_by_directory :: "(string \<times> int) list"
  total_errors :: int
  total_warnings :: int

definition no_aggregates :: aggregates where
  "no_aggregates =
     \<lparr>errors_by_type = [], errors_by_file = [], errors_by_directory = [],
      total_errors = 0, total_warnings = 0\<rparr>"

definition record_finding :: "string \<Rightarrow> finding \<Rightarrow> aggregates \<Rightarrow> aggregates" where
  \<comment> \<open>the body of \<open>if match:\<close>, the same in both scripts\<close>
  "record_finding file_path f ag =
     (let ag1 = ag\<lparr>errors_by_type := dict_incr (rule f) (errors_by_type ag)\<rparr>;
          ag2 = ag1\<lparr>errors_by_file := dict_append file_path f (errors_by_file ag1)\<rparr>;
          ag3 = (case directory_of file_path of
                   None \<Rightarrow> ag2
                 | Some directory \<Rightarrow>
                     ag2\<lparr>errors_by_directory := dict_incr directory (errors_by_directory ag2)\<rparr>)
      in if severity f = ''error''
         then ag3\<lparr>total_errors := total_errors ag3 + 1\<rparr>
         else ag3\<lparr>total_warnings := total_warnings ag3 + 1\<rparr>)"

section \<open>The parse loops\<close>

definition group_of :: "caps \<Rightarrow> nat \<Rightarrow> string option" where
  \<comment> \<open>group \<open>n\<close> of a match; \<open>None\<close> for a group that took no part in it\<close>
  "group_of m n = map_of m n"

definition parse_line1 :: "string \<Rightarrow> (string \<times> finding) option" where
  \<comment> \<open>first script: the file path and the Finding of a line, if it matches\<close>
  "parse_line1 l =
     (case re_match error_pattern (strip l) of
        None \<Rightarrow> None
      | Some m \<Rightarrow>
          Option.bind (group_of m 1) (\<lambda>file_path.
          Option.bind (group_of m 2) (\<lambda>line_num.
          Option.bind (group_of m 3) (\<lambda>col_num.
          Option.bind (group_of m 4) (\<lambda>severity.
          Option.bind (group_of m 5) (\<lambda>message.
          Option.bind (group_of m 6) (\<lambda>rule.
            Some (file_path,
                  \<lparr>line = line_num, column = col_num, severity = severity,
                   message = message, rule = rule\<rparr>))))))))"

definition step1 :: "aggregates \<Rightarrow> string \<Rightarrow> aggregates" where
  "step1 ag l =
     (case parse_line1 l of
        None \<Rightarrow> ag
      | Some (file_path, f) \<Rightarrow> record_finding file_path f ag)"

definition is_file_line :: "string \<Rightarrow> bool" where
  \<comment> \<open>second script: \<open>line and line.startswith('/') and not line.startswith(' ')\<close>\<close>
  "is_file_line l = (l \<noteq> [] \<and> startswith l ''/'' \<and> \<not> startswith l '' '')"

definition parse_line2 :: "string option \<Rightarrow> string \<Rightarrow> (string \<times> finding) option" where
  \<comment> \<open>second script: the \<open>elif\<close> branch, under the cursor \<open>current_file\<close>\<close>
  "parse_line2 current_file l =
     (case current_file of
        None \<Rightarrow> None
      | Some cf \<Rightarrow>
          if cf = [] then None
          else if re_match finding_prefix l = None then None
          else (case re_match finding_pattern l of
                  None \<Rightarrow> None
                | Some m \<Rightarrow>
                    Option.bind (group_of m 1) (\<lambda>line_num.
                    Option.bind (group_of m 2) (\<lambda>col_num.
                    Option.bind (group_of m 3) (\<lambda>severity.
                    Option.bind (group_of m 4) (\<lambda>message.
                    Option.bind (group_of m 5) (\<lambda>rule.
                      Some (cf,
                            \<lparr>line = line_num, column = col_num, severity = severity,
                             message = message, rule = rule\<rparr>))))))))"

definition step2 :: "string option \<times> aggregates \<Rightarrow> string \<Rightarrow> string option \<times> aggregates" where
  "step2 st l =
     (case st of
        (current_file, ag) \<Rightarrow>
          if is_file_line l then (Some (strip l), ag)
          else (case parse_line2 current_file l of
                  None \<Rightarrow> (current_file, ag)
                | Some (file_path, f) \<Rightarrow> (current_file, record_finding file_path f ag)))"

record completed_process =
  stdout :: string
  stderr :: string

definition loop1 :: "string list \<Rightarrow> aggregates" where
  \<comment> \<open>first script: the \<open>for\<close> loop over the lines, from the empty aggregates\<close>
  "loop1 ls = foldl step1 no_aggregates ls"

definition loop2 :: "string list \<Rightarrow> string option \<times> aggregates" where
  \<comment> \<open>second script: the \<open>for\<close> loop, from \<open>current_file = None\<close> and the empty aggregates\<close>
  "loop2 ls = foldl step2 (None, no_aggregates) ls"

definition parse1 :: "string \<Rightarrow> aggregates" where
  "parse1 output = loop1 (split_on CHR 0x0A output)"

definition parse2 :: "string \<Rightarrow> aggregates" where
  "parse2 full_output = snd (loop2 (split_on CHR 0x0A full_output))"

definition analyze1 :: "completed_process \<Rightarrow> aggregates" where
  \<comment> \<open>first script: \<open>output = result.stdout + result.stderr\<close>\<close>
  "analyze1 result = parse1 (stdout result @ stderr result)"

definition analyze2 :: "completed_process \<Rightarrow> aggregates" where
  \<comment> \<open>second script: \<open>full_output = result.stderr\<close>\<close>
  "analyze2 result = parse2 (stderr result)"

section \<open>The report's computed values\<close>



definition any_errors :: "aggregates \<Rightarrow> int" where
  "any_errors ag = dict_get (errors_by_type ag) ''@typescript-eslint/no-explicit-any'' 0"

definition unused_vars :: "aggregates \<Rightarrow> int" where
  "unused_vars ag = dict_get (errors_by_type ag) ''@typescript-eslint/no-unused-vars'' 0"

definition react_hooks_total :: "aggregates \<Rightarrow> int" where
  "react_hooks_total ag =
     sum_list (map snd (filter (\<lambda>(rule, count). contains ''react-hooks'' rule) (errors_by_type ag)))"

definition react_refresh :: "aggregates \<Rightarrow> int" where
  "react_refresh ag = dict_get (errors_by_type ag) ''react-refresh/only-export-components'' 0"

definition empty_interface :: "aggregates \<Rightarrow> int" where
  "empty_interface ag = dict_get (errors_by_type ag) ''@typescript-eslint/no-empty-object-type'' 0"

definition group_counts :: "aggregates \<Rightarrow> int list" where
  \<comment> \<open>the counts printed for groups 1 to 5, in order\<close>
  "group_counts ag =
     [any_errors ag, unused_vars ag, react_hooks_total ag, react_refresh ag, empty_interface ag]"

section \<open>Notions used to state the properties\<close>

definition balanced :: "aggregates \<Rightarrow> bool" where
  \<comment> \<open>the per-rule counts add up to the number of errors plus the number of warnings\<close>
  "balanced ag = (sum_list (map snd (errors_by_type ag)) = total_errors ag + total_warnings ag)"







definition nearest_file_line :: "string list \<Rightarrow> string option" where
  \<comment> \<open>the last of the lines \<open>ls\<close> that the second script takes for a file path\<close>
  "nearest_file_line ls =
     (case rev (filter is_file_line ls) of [] \<Rightarrow> None | p # _ \<Rightarrow> Some p)"

fun erase :: "item list \<Rightarrow> item list" where
  \<comment> \<open>a pattern without its group marks\<close>
  "erase [] = []"
| "erase (Open_grp n # r) = erase r"
| "erase (Close_grp n # r) = erase r"
| "erase (Branch a b # r) = Branch (erase a) (erase b) # erase r"
| "erase (x # r) = x # erase r"

definition anchor_items :: "item list" where
  \<comment> \<open>\<open>\s+@[\w-]+/[\w-]+$\<close>: how both finding patterns end, group marks apart\<close>
  "anchor_items = Plus is_space # rule_items @ [Eol]"

fun re_search_from :: "item list \<Rightarrow> nat \<Rightarrow> string \<Rightarrow> caps option" where
  \<comment> \<open>the first match that starts at \<open>pos\<close> or later\<close>
  "re_search_from p pos [] = bt p pos [] [] []"
| "re_search_from p pos (x # xs) =
     (case bt p pos (x # xs) [] [] of
        Some m \<Rightarrow> Some m
      | None \<Rightarrow> re_search_from p (Suc pos) xs)"

definition re_search :: "item list \<Rightarrow> string \<Rightarrow> caps option" where
  \<comment> \<open>\<open>re.search(pattern, s)\<close>\<close>
  "re_search p s = re_search_from p 0 s"

definition has_rule_anchor :: "string \<Rightarrow> bool" where
  \<comment> \<open>the text ends with whitespace and a rule identifier\<close>
  "has_rule_anchor l = (re_search anchor_items l \<noteq> None)"

section \<open>Facts about the matcher\<close>

text \<open>
  The equations of \<open>bt\<close> are used one step at a time, on a subject whose first
  character is known.
\<close>

declare bt.simps [simp del]

lemma bt_Nil: "bt [] pos s mk cp = Some cp"
  by (simp add: bt.simps)

lemma bt_Bol: "bt (Bol # r) pos s mk cp = (if pos = 0 then bt r pos s mk cp else None)"
  by (simp add: bt.simps)

lemma bt_Eol: "bt (Eol # r) pos s mk cp = (if s = [] \<or> s = [CHR 0x0A] then bt r pos s mk cp else None)"
  by (simp add: bt.simps)

lemma bt_Lit:
  "bt (Lit c # r) pos [] mk cp = None"
  "bt (Lit c # r) pos (x # xs) mk cp = (if x = c then bt r (Suc pos) xs mk cp else None)"
  by (simp_all add: bt.simps)

lemma bt_Plus:
  "bt (Plus c # r) pos [] mk cp = None"
  "bt (Plus c # r) pos (x # xs) mk cp = (if c x then bt (Star c # r) (Suc pos) xs mk cp else None)"
  by (simp_all add: bt.simps)

lemma bt_PlusLazy:
  "bt (PlusLazy c # r) pos [] mk cp = None"
  "bt (PlusLazy c # r) pos (x # xs) mk cp =
     (if c x then bt (StarLazy c # r) (Suc pos) xs mk cp else None)"
  by (simp_all add: bt.simps)

lemma bt_Star:
  "bt (Star c # r) pos [] mk cp = bt r pos [] mk cp"
  "bt (Star c # r) pos (x # xs) mk cp =
     (if c x
      then (case bt (Star c # r) (Suc pos) xs mk cp of
              Some res \<Rightarrow> Some res
            | None \<Rightarrow> bt r pos (x # xs) mk cp)
      else bt r pos (x # xs) mk cp)"
  by (simp_all add: bt.simps)

lemma bt_StarLazy:
  "bt (StarLazy c # r) pos [] mk cp = bt r pos [] mk cp"
  "bt (StarLazy c # r) pos (x # xs) mk cp =
     (case bt r pos (x # xs) mk cp of
        Some res \<Rightarrow> Some res
      | None \<Rightarrow> if c x then bt (StarLazy c # r) (Suc pos) xs mk cp else None)"
  by (simp_all add: bt.simps split: option.splits)

lemma bt_Open: "bt (Open_grp n # r) pos s mk cp = bt r pos s ((n, s) # mk) cp"
  by (simp add: bt.simps)

lemma bt_Close:
  "bt (Close_grp n # r) pos s mk cp =
     (case map_of mk n of
        None \<Rightarrow> None
      | Some s0 \<Rightarrow> bt r pos s mk ((n, take (length s0 - length s) s0) # cp))"
  by (simp add: bt.simps)

lemma bt_Branch:
  "bt (Branch a b # r) pos s mk cp =
     (case bt (a @ r) pos s mk cp of Some res \<Rightarrow> Some res | None \<Rightarrow> bt (b @ r) pos s mk cp)"
  by (simp add: bt.simps)

lemmas bt_unfold = bt_Nil bt_Bol bt_Eol bt_Lit bt_Plus bt_PlusLazy bt_Star bt_StarLazy
  bt_Open bt_Close bt_Branch

lemma erase_append: "erase (a @ b) = erase a @ erase b"
  by (induction a rule: erase.induct) simp_all

lemma erase_length: "length (erase r) \<le> length r"
  by (induction r rule: erase.induct) auto

lemma erase_not_longer: "erase r \<noteq> i # r"
proof
  assume "erase r = i # r"
  then have "length (erase r) = Suc (length r)" by simp
  with erase_length [of r] show False by simp
qed

lemma reach_drop:
  assumes "\<exists>u s' mk' cp'. s = u @ s' \<and> bt ys (pos + length u) s' mk' cp' = Some res
             \<and> (Q \<longrightarrow> mk' = mk0 \<and> cp' = cp0)"
      and "\<not> Q'"
  shows "\<exists>u s' mk' cp'. s = u @ s' \<and> bt ys (pos + length u) s' mk' cp' = Some res
             \<and> (Q' \<longrightarrow> mk' = mk \<and> cp' = cp)"
  using assms by blast

lemma reach_same:
  assumes "\<exists>u s' mk' cp'. s = u @ s' \<and> bt ys (pos + length u) s' mk' cp' = Some res
             \<and> (Q \<longrightarrow> mk' = mk \<and> cp' = cp)"
      and "Q' \<Longrightarrow> Q"
  shows "\<exists>u s' mk' cp'. s = u @ s' \<and> bt ys (pos + length u) s' mk' cp' = Some res
             \<and> (Q' \<longrightarrow> mk' = mk \<and> cp' = cp)"
  using assms by blast

lemma reach_char:
  assumes "\<exists>u s' mk' cp'. xs = u @ s' \<and> bt ys (Suc pos + length u) s' mk' cp' = Some res
             \<and> (Q \<longrightarrow> mk' = mk \<and> cp' = cp)"
      and "Q' \<Longrightarrow> Q"
  shows "\<exists>u s' mk' cp'. x # xs = u @ s' \<and> bt ys (pos + length u) s' mk' cp' = Some res
             \<and> (Q' \<longrightarrow> mk' = mk \<and> cp' = cp)"
proof -
  from assms(1) obtain u s' mk' cp' where
    "xs = u @ s'" "bt ys (Suc pos + length u) s' mk' cp' = Some res"
    "Q \<longrightarrow> mk' = mk \<and> cp' = cp" by blast
  with assms(2) have "x # xs = (x # u) @ s' \<and> bt ys (pos + length (x # u)) s' mk' cp' = Some res
     \<and> (Q' \<longrightarrow> mk' = mk \<and> cp' = cp)" by auto
  then show ?thesis by blast
qed

lemma bt_append:
  "bt (xs @ ys) pos s mk cp = Some res \<Longrightarrow>
   \<exists>u s' mk' cp'. s = u @ s' \<and> bt ys (pos + length u) s' mk' cp' = Some res
        \<and> (erase xs = xs \<longrightarrow> mk' = mk \<and> cp' = cp)"
proof (induction "sum_list (map weight xs) + length s" arbitrary: xs pos s mk cp rule: less_induct)
  case less
  note IH = less.hyps
  note prem = less.prems
  show ?case
  proof (cases xs)
    case Nil
    with prem have "s = [] @ s \<and> bt ys (pos + length ([]::string)) s mk cp = Some res
       \<and> (erase xs = xs \<longrightarrow> mk = mk \<and> cp = cp)" by simp
    then show ?thesis by blast
  next
    case (Cons i r)
    show ?thesis
    proof (cases i)
      case Bol
      from prem have b: "bt (r @ ys) pos s mk cp = Some res"
        by (simp add: Cons Bol bt_Bol split: if_splits)
      show ?thesis by (rule reach_same [OF IH [OF _ b]]) (simp_all add: Cons Bol)
    next
      case Eol
      from prem have b: "bt (r @ ys) pos s mk cp = Some res"
        by (simp add: Cons Eol bt_Eol split: if_splits)
      show ?thesis by (rule reach_same [OF IH [OF _ b]]) (simp_all add: Cons Eol)
    next
      case (Lit c)
      from prem obtain x t where s: "s = x # t" and b: "bt (r @ ys) (Suc pos) t mk cp = Some res"
        by (cases s) (simp_all add: Cons Lit bt_Lit split: if_splits)
      show ?thesis unfolding s
        by (rule reach_char [OF IH [OF _ b]]) (simp_all add: Cons Lit s)
    next
      case (Plus c)
      from prem obtain x t where s: "s = x # t"
        and b: "bt ((Star c # r) @ ys) (Suc pos) t mk cp = Some res"
        by (cases s) (simp_all add: Cons Plus bt_Plus split: if_splits)
      show ?thesis unfolding s
        by (rule reach_char [OF IH [OF _ b]]) (simp_all add: Cons Plus s)
    next
      case (PlusLazy c)
      from prem obtain x t where s: "s = x # t"
        and b: "bt ((StarLazy c # r) @ ys) (Suc pos) t mk cp = Some res"
        by (cases s) (simp_all add: Cons PlusLazy bt_PlusLazy split: if_splits)
      show ?thesis unfolding s
        by (rule reach_char [OF IH [OF _ b]]) (simp_all add: Cons PlusLazy s)
    next
      case (Star c)
      from prem have
        "bt (r @ ys) pos s mk cp = Some res
         \<or> (\<exists>x t. s = x # t \<and> bt ((Star c # r) @ ys) (Suc pos) t mk cp = Some res)"
        by (cases s) (auto simp: Cons Star bt_Star split: if_splits option.splits)
      then show ?thesis
      proof
        assume b: "bt (r @ ys) pos s mk cp = Some res"
        show ?thesis by (rule reach_same [OF IH [OF _ b]]) (simp_all add: Cons Star)
      next
        assume "\<exists>x t. s = x # t \<and> bt ((Star c # r) @ ys) (Suc pos) t mk cp = Some res"
        then obtain x t where s: "s = x # t"
          and b: "bt ((Star c # r) @ ys) (Suc pos) t mk cp = Some res" by blast
        show ?thesis unfolding s
          by (rule reach_char [OF IH [OF _ b]]) (simp_all add: Cons Star s)
      qed
    next
      case (StarLazy c)
      from prem have
        "bt (r @ ys) pos s mk cp = Some res
         \<or> (\<exists>x t. s = x # t \<and> bt ((StarLazy c # r) @ ys) (Suc pos) t mk cp = Some res)"
        by (cases s) (auto simp: Cons StarLazy bt_StarLazy split: if_splits option.splits)
      then show ?thesis
      proof
        assume b: "bt (r @ ys) pos s mk cp = Some res"
        show ?thesis by (rule reach_same [OF IH [OF _ b]]) (simp_all add: Cons StarLazy)
      next
        assume "\<exists>x t. s = x # t \<and> bt ((StarLazy c # r) @ ys) (Suc pos) t mk cp = Some res"
        then obtain x t where s: "s = x # t"
          and b: "bt ((StarLazy c # r) @ ys) (Suc pos) t mk cp = Some res" by blast
        show ?thesis unfolding s
          by (rule reach_char [OF IH [OF _ b]]) (simp_all add: Cons StarLazy s)
      qed
    next
      case (Open_grp n)
      from prem have b: "bt (r @ ys) pos s ((n, s) # mk) cp = Some res"
        by (simp add: Cons Open_grp bt_Open)
      show ?thesis
        by (rule reach_drop [OF IH [OF _ b]]) (simp_all add: Cons Open_grp erase_not_longer)
    next
      case (Close_grp n)
      from prem obtain s0 where
        b: "bt (r @ ys) pos s mk ((n, take (length s0 - length s) s0) # cp) = Some res"
        by (auto simp: Cons Close_grp bt_Close split: option.splits)
      show ?thesis
        by (rule reach_drop [OF IH [OF _ b]]) (simp_all add: Cons Close_grp erase_not_longer)
    next
      case (Branch a b)
      from prem have
        "bt ((a @ r) @ ys) pos s mk cp = Some res \<or> bt ((b @ r) @ ys) pos s mk cp = Some res"
        by (auto simp: Cons Branch bt_Branch split: option.splits)
      then show ?thesis
      proof
        assume h: "bt ((a @ r) @ ys) pos s mk cp = Some res"
        show ?thesis
          by (rule reach_same [OF IH [OF _ h]]) (simp_all add: Cons Branch erase_append)
      next
        assume h: "bt ((b @ r) @ ys) pos s mk cp = Some res"
        show ?thesis
          by (rule reach_same [OF IH [OF _ h]]) (simp_all add: Cons Branch erase_append)
      qed
    qed
  qed
qed


lemma bt_erase:
  "bt xs pos s mk cp \<noteq> None \<Longrightarrow> bt (erase xs) pos s mk' cp' \<noteq> None"
proof (induction "sum_list (map weight xs) + length s" arbitrary: xs pos s mk cp mk' cp'
       rule: less_induct)
  case less
  note IH = less.hyps
  note prem = less.prems
  show ?case
  proof (cases xs)
    case Nil
    then show ?thesis by (simp add: bt_Nil)
  next
    case (Cons i r)
    show ?thesis
    proof (cases i)
      case Bol
      from prem have p: "pos = 0" and b: "bt r pos s mk cp \<noteq> None"
        by (simp_all add: Cons Bol bt_Bol split: if_splits)
      from IH [OF _ b, of mk' cp'] p show ?thesis by (simp add: Cons Bol bt_Bol)
    next
      case Eol
      from prem have p: "s = [] \<or> s = [CHR 0x0A]" and b: "bt r pos s mk cp \<noteq> None"
        by (simp_all add: Cons Eol bt_Eol split: if_splits)
      from IH [OF _ b, of mk' cp'] p show ?thesis by (simp add: Cons Eol bt_Eol)
    next
      case (Lit c)
      from prem obtain t where s: "s = c # t" and b: "bt r (Suc pos) t mk cp \<noteq> None"
        by (cases s) (simp_all add: Cons Lit bt_Lit split: if_splits)
      from IH [OF _ b, of mk' cp'] show ?thesis by (simp add: Cons Lit bt_Lit s)
    next
      case (Plus c)
      from prem obtain x t where s: "s = x # t" and cx: "c x"
        and b: "bt (Star c # r) (Suc pos) t mk cp \<noteq> None"
        by (cases s) (simp_all add: Cons Plus bt_Plus split: if_splits)
      from IH [OF _ b, of mk' cp'] cx show ?thesis by (simp add: Cons Plus bt_Plus s)
    next
      case (PlusLazy c)
      from prem obtain x t where s: "s = x # t" and cx: "c x"
        and b: "bt (StarLazy c # r) (Suc pos) t mk cp \<noteq> None"
        by (cases s) (simp_all add: Cons PlusLazy bt_PlusLazy split: if_splits)
      from IH [OF _ b, of mk' cp'] cx show ?thesis by (simp add: Cons PlusLazy bt_PlusLazy s)
    next
      case (Star c)
      from prem have
        "bt r pos s mk cp \<noteq> None
         \<or> (\<exists>x t. s = x # t \<and> c x \<and> bt (Star c # r) (Suc pos) t mk cp \<noteq> None)"
        by (cases s) (auto simp: Cons Star bt_Star split: if_splits option.splits)
      then show ?thesis
      proof
        assume b: "bt r pos s mk cp \<noteq> None"
        from IH [OF _ b, of mk' cp'] show ?thesis
          by (cases s) (auto simp: Cons Star bt_Star split: option.splits)
      next
        assume "\<exists>x t. s = x # t \<and> c x \<and> bt (Star c # r) (Suc pos) t mk cp \<noteq> None"
        then obtain x t where s: "s = x # t" and cx: "c x"
          and b: "bt (Star c # r) (Suc pos) t mk cp \<noteq> None" by blast
        from IH [OF _ b, of mk' cp'] cx show ?thesis
          by (auto simp: Cons Star bt_Star s split: option.splits)
      qed
    next
      case (StarLazy c)
      from prem have
        "bt r pos s mk cp \<noteq> None
         \<or> (\<exists>x t. s = x # t \<and> c x \<and> bt (StarLazy c # r) (Suc pos) t mk cp \<noteq> None)"
        by (cases s) (auto simp: Cons StarLazy bt_StarLazy split: if_splits option.splits)
      then show ?thesis
      proof
        assume b: "bt r pos s mk cp \<noteq> None"
        from IH [OF _ b, of mk' cp'] show ?thesis
          by (cases s) (auto simp: Cons StarLazy bt_StarLazy split: option.splits)
      next
        assume "\<exists>x t. s = x # t \<and> c x \<and> bt (StarLazy c # r) (Suc pos) t mk cp \<noteq> None"
        then obtain x t where s: "s = x # t" and cx: "c x"
          and b: "bt (StarLazy c # r) (Suc pos) t mk cp \<noteq> None" by blast
        from IH [OF _ b, of mk' cp'] cx show ?thesis
          by (auto simp: Cons StarLazy bt_StarLazy s split: option.splits)
      qed
    next
      case (Open_grp n)
      from prem have b: "bt r pos s ((n, s) # mk) cp \<noteq> None"
        by (simp add: Cons Open_grp bt_Open)
      from IH [OF _ b, of mk' cp'] show ?thesis by (simp add: Cons Open_grp)
    next
      case (Close_grp n)
      from prem obtain s0 where
        b: "bt r pos s mk ((n, take (length s0 - length s) s0) # cp) \<noteq> None"
        by (auto simp: Cons Close_grp bt_Close split: option.splits)
      from IH [OF _ b, of mk' cp'] show ?thesis by (simp add: Cons Close_grp)
    next
      case (Branch a b)
      from prem have "bt (a @ r) pos s mk cp \<noteq> None \<or> bt (b @ r) pos s mk cp \<noteq> None"
        by (auto simp: Cons Branch bt_Branch split: option.splits)
      then show ?thesis
      proof
        assume h: "bt (a @ r) pos s mk cp \<noteq> None"
        from IH [OF _ h, of mk' cp'] show ?thesis
          by (auto simp: Cons Branch bt_Branch erase_append split: option.splits)
      next
        assume h: "bt (b @ r) pos s mk cp \<noteq> None"
        from IH [OF _ h, of mk' cp'] show ?thesis
          by (auto simp: Cons Branch bt_Branch erase_append split: option.splits)
      qed
    qed
  qed
qed

lemma re_search_from_hit:
  "bt p (pos + length u) s' [] [] \<noteq> None \<Longrightarrow> re_search_from p pos (u @ s') \<noteq> None"
proof (induction u arbitrary: pos)
  case Nil
  then show ?case by (cases s') (auto split: option.splits)
next
  case (Cons x u)
  from Cons.prems have "bt p (Suc pos + length u) s' [] [] \<noteq> None" by simp
  from Cons.IH [OF this] show ?case by (auto split: option.splits)
qed

lemma match_has_anchor:
  assumes "re_match (pre @ tail) s \<noteq> None" and "erase tail = anchor_items"
  shows "has_rule_anchor s"
proof -
  from assms(1) obtain res where "bt (pre @ tail) 0 s [] [] = Some res"
    by (auto simp: re_match_def)
  from bt_append [OF this] obtain u s' mk' cp' where
    s: "s = u @ s'" and b: "bt tail (0 + length u) s' mk' cp' = Some res" by blast
  from b have "bt tail (0 + length u) s' mk' cp' \<noteq> None" by simp
  from bt_erase [OF this, of "[]" "[]"] assms(2)
  have "bt anchor_items (0 + length u) s' [] [] \<noteq> None" by simp
  from re_search_from_hit [OF this] show ?thesis
    by (simp add: has_rule_anchor_def re_search_def s)
qed

lemma error_pattern_split:
  "error_pattern =
     [Bol, Open_grp 1, Lit CHR ''/'', Plus not_space, Close_grp 1, Plus is_space,
      Open_grp 2, Plus is_digit, Close_grp 2, Lit CHR '':'',
      Open_grp 3, Plus is_digit, Close_grp 3, Plus is_space,
      Open_grp 4, Branch (lit ''error'') (lit ''warning''), Close_grp 4, Plus is_space,
      Open_grp 5, PlusLazy any_char, Close_grp 5]
     @ (Plus is_space # Open_grp 6 # rule_items @ [Close_grp 6, Eol])"
  by (simp add: error_pattern_def severity_items_def)

lemma finding_pattern_split:
  "finding_pattern =
     [Bol, Plus is_space,
      Open_grp 1, Plus is_digit, Close_grp 1, Lit CHR '':'',
      Open_grp 2, Plus is_digit, Close_grp 2, Plus is_space,
      Open_grp 3, Branch (lit ''error'') (lit ''warning''), Close_grp 3, Plus is_space,
      Open_grp 4, PlusLazy any_char, Close_grp 4]
     @ (Plus is_space # Open_grp 5 # rule_items @ [Close_grp 5, Eol])"
  by (simp add: finding_pattern_def severity_items_def)

lemma erase_tail: "erase (Plus is_space # Open_grp n # rule_items @ [Close_grp n, Eol]) = anchor_items"
  by (simp add: anchor_items_def rule_items_def)

lemma error_pattern_anchor: "re_match error_pattern s \<noteq> None \<Longrightarrow> has_rule_anchor s"
  unfolding error_pattern_split by (rule match_has_anchor [OF _ erase_tail])

lemma finding_pattern_anchor: "re_match finding_pattern s \<noteq> None \<Longrightarrow> has_rule_anchor s"
  unfolding finding_pattern_split by (rule match_has_anchor [OF _ erase_tail])


text \<open>
  A match sets every group whose closing mark is in the pattern outside all alternations.
  So the groups that the scripts unpack are all set when a line matches: a line yields
  no Finding only where the script's own tests fail.
\<close>

lemma bt_groups:
  "bt xs pos s mk cp = Some res \<Longrightarrow>
   fst ` set cp \<union> {n. Close_grp n \<in> set xs} \<subseteq> fst ` set res"
proof (induction "sum_list (map weight xs) + length s" arbitrary: xs pos s mk cp rule: less_induct)
  case less
  note IH = less.hyps
  note prem = less.prems
  show ?case
  proof (cases xs)
    case Nil
    with prem show ?thesis by (simp add: bt_Nil)
  next
    case (Cons i r)
    show ?thesis
    proof (cases i)
      case Bol
      from prem have b: "bt r pos s mk cp = Some res"
        by (simp add: Cons Bol bt_Bol split: if_splits)
      from IH [OF _ b] show ?thesis by (auto simp: Cons Bol)
    next
      case Eol
      from prem have b: "bt r pos s mk cp = Some res"
        by (simp add: Cons Eol bt_Eol split: if_splits)
      from IH [OF _ b] show ?thesis by (auto simp: Cons Eol)
    next
      case (Lit c)
      from prem obtain x t where s: "s = x # t" and b: "bt r (Suc pos) t mk cp = Some res"
        by (cases s) (simp_all add: Cons Lit bt_Lit split: if_splits)
      from IH [OF _ b] show ?thesis by (auto simp: Cons Lit s)
    next
      case (Plus c)
      from prem obtain x t where s: "s = x # t"
        and b: "bt (Star c # r) (Suc pos) t mk cp = Some res"
        by (cases s) (simp_all add: Cons Plus bt_Plus split: if_splits)
      from IH [OF _ b] show ?thesis by (auto simp: Cons Plus s)
    next
      case (PlusLazy c)
      from prem obtain x t where s: "s = x # t"
        and b: "bt (StarLazy c # r) (Suc pos) t mk cp = Some res"
        by (cases s) (simp_all add: Cons PlusLazy bt_PlusLazy split: if_splits)
      from IH [OF _ b] show ?thesis by (auto simp: Cons PlusLazy s)
    next
      case (Star c)
      from prem have
        "bt r pos s mk cp = Some res
         \<or> (\<exists>x t. s = x # t \<and> bt (Star c # r) (Suc pos) t mk cp = Some res)"
        by (cases s) (auto simp: Cons Star bt_Star split: if_splits option.splits)
      then show ?thesis
      proof
        assume b: "bt r pos s mk cp = Some res"
        from IH [OF _ b] show ?thesis by (auto simp: Cons Star)
      next
        assume "\<exists>x t. s = x # t \<and> bt (Star c # r) (Suc pos) t mk cp = Some res"
        then obtain x t where s: "s = x # t"
          and b: "bt (Star c # r) (Suc pos) t mk cp = Some res" by blast
        from IH [OF _ b] show ?thesis by (auto simp: Cons Star s)
      qed
    next
      case (StarLazy c)
      from prem have
        "bt r pos s mk cp = Some res
         \<or> (\<exists>x t. s = x # t \<and> bt (StarLazy c # r) (Suc pos) t mk cp = Some res)"
        by (cases s) (auto simp: Cons StarLazy bt_StarLazy split: if_splits option.splits)
      then show ?thesis
      proof
        assume b: "bt r pos s mk cp = Some res"
        from IH [OF _ b] show ?thesis by (auto simp: Cons StarLazy)
      next
        assume "\<exists>x t. s = x # t \<and> bt (StarLazy c # r) (Suc pos) t mk cp = Some res"
        then obtain x t where s: "s = x # t"
          and b: "bt (StarLazy c # r) (Suc pos) t mk cp = Some res" by blast
        from IH [OF _ b] show ?thesis by (auto simp: Cons StarLazy s)
      qed
    next
      case (Open_grp n)
      from prem have b: "bt r pos s ((n, s) # mk) cp = Some res"
        by (simp add: Cons Open_grp bt_Open)
      from IH [OF _ b] show ?thesis by (auto simp: Cons Open_grp)
    next
      case (Close_grp n)
      from prem obtain s0 where
        b: "bt r pos s mk ((n, take (length s0 - length s) s0) # cp) = Some res"
        by (auto simp: Cons Close_grp bt_Close split: option.splits)
      from IH [OF _ b] show ?thesis by (auto simp: Cons Close_grp)
    next
      case (Branch a b)
      from prem have "bt (a @ r) pos s mk cp = Some res \<or> bt (b @ r) pos s mk cp = Some res"
        by (auto simp: Cons Branch bt_Branch split: option.splits)
      then show ?thesis
      proof
        assume h: "bt (a @ r) pos s mk cp = Some res"
        from IH [OF _ h] show ?thesis by (auto simp: Cons Branch)
      next
        assume h: "bt (b @ r) pos s mk cp = Some res"
        from IH [OF _ h] show ?thesis by (auto simp: Cons Branch)
      qed
    qed
  qed
qed

lemma group_set:
  assumes "re_match p s = Some m" "Close_grp n \<in> set p"
  shows "\<exists>g. group_of m n = Some g"
proof -
  from assms(1) have "bt p 0 s [] [] = Some m" by (simp add: re_match_def)
  from bt_groups [OF this] assms(2) have "n \<in> fst ` set m" by auto
  then have "map_of m n \<noteq> None" by (simp add: map_of_eq_None_iff)
  then show ?thesis by (auto simp: group_of_def)
qed

lemma parse_line1_matches:
  "(parse_line1 l = None) = (re_match error_pattern (strip l) = None)"
proof (cases "re_match error_pattern (strip l)")
  case None
  then show ?thesis by (simp add: parse_line1_def)
next
  case (Some m)
  have "\<exists>g. group_of m n = Some g" if "n \<in> {1, 2, 3, 4, 5, 6}" for n
    using that by (intro group_set [OF Some]) (auto simp: error_pattern_def)
  then obtain g1 g2 g3 g4 g5 g6 where
    "group_of m 1 = Some g1" "group_of m 2 = Some g2" "group_of m 3 = Some g3"
    "group_of m 4 = Some g4" "group_of m 5 = Some g5" "group_of m 6 = Some g6"
    by (metis insertI1 insertI2)
  with Some show ?thesis by (simp add: parse_line1_def)
qed

lemma parse_line2_matches:
  "(parse_line2 cf l = None) =
     (cf = None \<or> cf = Some [] \<or> re_match finding_prefix l = None
      \<or> re_match finding_pattern l = None)"
proof (cases "re_match finding_pattern l")
  case None
  then show ?thesis by (auto simp: parse_line2_def split: option.splits)
next
  case (Some m)
  have "\<exists>g. group_of m n = Some g" if "n \<in> {1, 2, 3, 4, 5}" for n
    using that by (intro group_set [OF Some]) (auto simp: finding_pattern_def)
  then obtain g1 g2 g3 g4 g5 where
    "group_of m 1 = Some g1" "group_of m 2 = Some g2" "group_of m 3 = Some g3"
    "group_of m 4 = Some g4" "group_of m 5 = Some g5"
    by (metis insertI1 insertI2)
  with Some show ?thesis by (auto simp: parse_line2_def split: option.splits)
qed

section \<open>The example of a flat line\<close>

text \<open>
  C1, as amended. The pattern of the first script asks for whitespace between the path
  and \<open>line:column\<close>. With a space there (\<open>Foo.tsx 12:3\<close>), the example line yields
  exactly one Finding: rule \<open>@typescript-eslint/no-explicit-any\<close>, severity \<open>error\<close>,
  counted once under the directory \<open>components\<close>.
\<close>

theorem flat_example_with_space_parses:
  "parse1 ''/a/b/src/components/Foo.tsx 12:3  error  Unexpected any. Specify a different type  @typescript-eslint/no-explicit-any''
   = \<lparr>errors_by_type = [(''@typescript-eslint/no-explicit-any'', 1)],
      errors_by_file =
        [(''/a/b/src/components/Foo.tsx'',
          [\<lparr>line = ''12'', column = ''3'', severity = ''error'',
            message = ''Unexpected any. Specify a different type'',
            rule = ''@typescript-eslint/no-explicit-any''\<rparr>])],
      errors_by_directory = [(''components'', 1)],
      total_errors = 1, total_warnings = 0\<rparr>"
  by code_simp

text \<open>
  C1 as written: in the line of the claim the position follows the path after a colon
  (\<open>Foo.tsx:12:3\<close>). \<open>[^\s]+\<close> then runs up to the first space, no \<open>line:column\<close>
  follows the whitespace, and the line yields no Finding; the second script takes the
  line for a file path and yields none either.
\<close>

theorem flat_example_as_written_not_parsed:
  "parse_line1 ''/a/b/src/components/Foo.tsx:12:3  error  Unexpected any. Specify a different type  @typescript-eslint/no-explicit-any'' = None
   \<and> parse1 ''/a/b/src/components/Foo.tsx:12:3  error  Unexpected any. Specify a different type  @typescript-eslint/no-explicit-any'' = no_aggregates
   \<and> parse2 ''/a/b/src/components/Foo.tsx:12:3  error  Unexpected any. Specify a different type  @typescript-eslint/no-explicit-any'' = no_aggregates"
  by code_simp

section \<open>The counts add up\<close>

lemma sum_dict_incr: "sum_list (map snd (dict_incr k d)) = sum_list (map snd d) + 1"
  by (induction k d rule: dict_incr.induct) auto

lemma balanced_record_finding: "balanced ag \<Longrightarrow> balanced (record_finding p f ag)"
  by (simp add: balanced_def record_finding_def Let_def sum_dict_incr split: option.splits)

lemma balanced_step1: "balanced ag \<Longrightarrow> balanced (step1 ag l)"
  by (simp add: step1_def balanced_record_finding split: option.splits prod.splits)

lemma balanced_step2: "balanced (snd st) \<Longrightarrow> balanced (snd (step2 st l))"
  by (cases st) (simp add: step2_def balanced_record_finding split: option.splits prod.splits)

lemma balanced_foldl1: "balanced ag \<Longrightarrow> balanced (foldl step1 ag ls)"
  by (induction ls arbitrary: ag) (simp_all add: balanced_step1)

lemma balanced_foldl2: "balanced (snd st) \<Longrightarrow> balanced (snd (foldl step2 st ls))"
  by (induction ls arbitrary: st) (simp_all add: balanced_step2)

lemma balanced_init: "balanced no_aggregates"
  by (simp add: balanced_def no_aggregates_def)

text \<open>
  C3. In both scripts, after any number \<open>n\<close> of lines of any input text (so after every
  accumulation step, and at the end, where \<open>take\<close> returns all lines), the per-rule
  counts sum to the error total plus the warning total.
\<close>

theorem rule_counts_sum_to_totals:
  "balanced (loop1 (take n (split_on CHR 0x0A output)))
   \<and> balanced (snd (loop2 (take n (split_on CHR 0x0A output))))"
  by (simp add: loop1_def loop2_def balanced_foldl1 balanced_foldl2 balanced_init)

section \<open>Whitespace around a line\<close>

lemma strip_pad:
  assumes "list_all is_space a" "list_all is_space b"
  shows "strip (a @ l @ b) = strip l"
proof -
  have 1: "dropWhile is_space (a @ l @ b) = dropWhile is_space (l @ b)"
    using assms(1) by (intro dropWhile_append2) (simp add: list_all_iff)
  have 2: "dropWhile is_space (rev b @ ys) = dropWhile is_space ys" for ys
    using assms(2) by (intro dropWhile_append2) (simp add: list_all_iff)
  show ?thesis
  proof (cases "list_all is_space l")
    case True
    have "\<forall>x\<in>set (l @ b). is_space x" "\<forall>x\<in>set l. is_space x"
      using True assms(2) by (auto simp: list_all_iff)
    then have e: "dropWhile is_space (l @ b) = []" "dropWhile is_space l = []"
      by (simp_all only: dropWhile_eq_Nil_conv)
    show ?thesis unfolding strip_def 1 e ..
  next
    case False
    then have "dropWhile is_space (l @ b) = dropWhile is_space l @ b"
      by (auto simp: list_all_iff dropWhile_append1)
    then show ?thesis by (simp add: strip_def 1 2)
  qed
qed

text \<open>
  C10. The first script strips a line before it matches it: whitespace \<open>a\<close> put before
  a line and whitespace \<open>b\<close> put after it change neither whether the line parses nor
  the Finding it yields, nor what the loop's step does with it. Read from right to
  left, the same holds for removing them; with \<open>b\<close> empty, an indented line parses as
  the line without its indentation does.
\<close>

theorem parse_line1_ignores_padding:
  "list_all is_space a \<Longrightarrow> list_all is_space b \<Longrightarrow>
   parse_line1 (a @ l @ b) = parse_line1 l \<and> step1 ag (a @ l @ b) = step1 ag l"
  by (simp add: parse_line1_def step1_def strip_pad)

theorem parse_line1_ignores_padding_witness:
  "parse_line1 (''    '' @ ''/a/src/lib/x.ts 1:2 error m @a/b'' @ [CHR 0x09])
   = Some (''/a/src/lib/x.ts'',
           \<lparr>line = ''1'', column = ''2'', severity = ''error'', message = ''m'',
            rule = ''@a/b''\<rparr>)"
proof -
  have a: "list_all is_space ''    ''" by code_simp
  have b: "list_all is_space [CHR 0x09]" by code_simp
  have c: "parse_line1 ''/a/src/lib/x.ts 1:2 error m @a/b''
           = Some (''/a/src/lib/x.ts'',
                   \<lparr>line = ''1'', column = ''2'', severity = ''error'', message = ''m'',
                    rule = ''@a/b''\<rparr>)"
    by code_simp
  from parse_line1_ignores_padding [OF a b, of "''/a/src/lib/x.ts 1:2 error m @a/b''"] c
  show ?thesis by simp
qed

section \<open>The second script reads the error stream only\<close>

text \<open>
  C8. Two runs of the lint command with the same text on standard error give the
  second script the same aggregates, whatever they wrote to standard output.
\<close>

theorem analyze2_reads_stderr_only:
  "stderr r1 = stderr r2 \<Longrightarrow> analyze2 r1 = analyze2 r2"
  by (simp add: analyze2_def)

theorem analyze2_reads_stderr_only_witness:
  "analyze2 \<lparr>stdout = ''/a/src/lib/x.ts'' @ [CHR 0x0A] @ ''  1:2  error  m  @a/b'', stderr = ''/a/src/lib/y.ts''\<rparr>
   = analyze2 \<lparr>stdout = [], stderr = ''/a/src/lib/y.ts''\<rparr>"
  by (rule analyze2_reads_stderr_only) simp

section \<open>Rules the input never had\<close>

text \<open>
  C7. A rule identifier that is no key of the rule-to-count mapping is looked up as the
  count 0; \<open>dict_get\<close> has no failing case, so nothing is raised. On empty input the
  five groups of the report print 0, in both scripts.
\<close>

theorem missing_rule_counts_zero:
  "k \<notin> fst ` set (errors_by_type ag) \<Longrightarrow>
   dict_get (errors_by_type ag) k 0 = 0
   \<and> group_counts (parse1 []) = [0, 0, 0, 0, 0]
   \<and> group_counts (parse2 []) = [0, 0, 0, 0, 0]"
proof (intro conjI)
  assume "k \<notin> fst ` set (errors_by_type ag)"
  then have "map_of (errors_by_type ag) k = None" by (simp add: map_of_eq_None_iff)
  then show "dict_get (errors_by_type ag) k 0 = 0" by (simp add: dict_get_def)
next
  show "group_counts (parse1 []) = [0, 0, 0, 0, 0]" by code_simp
next
  show "group_counts (parse2 []) = [0, 0, 0, 0, 0]" by code_simp
qed

theorem missing_rule_counts_zero_witness:
  "dict_get (errors_by_type (parse1 ''/a/src/lib/x.ts 1:2 error m @a/b''))
     ''react-refresh/only-export-components'' 0 = 0"
proof -
  have "''react-refresh/only-export-components''
        \<notin> fst ` set (errors_by_type (parse1 ''/a/src/lib/x.ts 1:2 error m @a/b''))"
    by code_simp
  from missing_rule_counts_zero [OF this] show ?thesis by simp
qed

section \<open>Every rule identifier parsed is scoped\<close>

lemma rule_capture:
  assumes "bt (Open_grp n # rule_items @ [Close_grp n, Eol]) pos s mk cp = Some res"
  shows "\<exists>t. map_of res n = Some (CHR ''@'' # t)"
proof -
  from assms obtain t where s: "s = CHR ''@'' # t"
    and b: "bt ([Plus word_or_hyphen, Lit CHR ''/'', Plus word_or_hyphen] @ [Close_grp n, Eol])
              (Suc pos) t ((n, s) # mk) cp = Some res"
    by (cases s) (simp_all add: rule_items_def bt_Open bt_Lit split: if_splits)
  from bt_append [OF b] obtain u s' where t: "t = u @ s'"
    and c: "bt [Close_grp n, Eol] (Suc pos + length u) s' ((n, s) # mk) cp = Some res"
    by auto
  from c have "res = (n, take (length s - length s') s) # cp"
    by (auto simp: bt_Close bt_Eol bt_Nil split: if_splits)
  moreover have "take (length s - length s') s = CHR ''@'' # take (length u) t"
    by (simp add: s t)
  ultimately show ?thesis by simp
qed

lemma pattern_rule_capture:
  assumes "re_match (pre @ Open_grp n # rule_items @ [Close_grp n, Eol]) s = Some m"
  shows "\<exists>t. group_of m n = Some (CHR ''@'' # t)"
proof -
  from assms have "bt (pre @ Open_grp n # rule_items @ [Close_grp n, Eol]) 0 s [] [] = Some m"
    by (simp add: re_match_def)
  from bt_append [OF this] obtain p' s' mk' cp' where
    "bt (Open_grp n # rule_items @ [Close_grp n, Eol]) p' s' mk' cp' = Some m" by blast
  from rule_capture [OF this] show ?thesis by (simp add: group_of_def)
qed

lemma error_pattern_split6:
  "error_pattern =
     [Bol, Open_grp 1, Lit CHR ''/'', Plus not_space, Close_grp 1, Plus is_space,
      Open_grp 2, Plus is_digit, Close_grp 2, Lit CHR '':'',
      Open_grp 3, Plus is_digit, Close_grp 3, Plus is_space,
      Open_grp 4, Branch (lit ''error'') (lit ''warning''), Close_grp 4, Plus is_space,
      Open_grp 5, PlusLazy any_char, Close_grp 5, Plus is_space]
     @ Open_grp 6 # rule_items @ [Close_grp 6, Eol]"
  by (simp add: error_pattern_def severity_items_def)

lemma finding_pattern_split5:
  "finding_pattern =
     [Bol, Plus is_space,
      Open_grp 1, Plus is_digit, Close_grp 1, Lit CHR '':'',
      Open_grp 2, Plus is_digit, Close_grp 2, Plus is_space,
      Open_grp 3, Branch (lit ''error'') (lit ''warning''), Close_grp 3, Plus is_space,
      Open_grp 4, PlusLazy any_char, Close_grp 4, Plus is_space]
     @ Open_grp 5 # rule_items @ [Close_grp 5, Eol]"
  by (simp add: finding_pattern_def severity_items_def)

lemma error_pattern_rule: "re_match error_pattern s = Some m \<Longrightarrow> \<exists>t. group_of m 6 = Some (CHR ''@'' # t)"
  unfolding error_pattern_split6 by (rule pattern_rule_capture)

lemma finding_pattern_rule: "re_match finding_pattern s = Some m \<Longrightarrow> \<exists>t. group_of m 5 = Some (CHR ''@'' # t)"
  unfolding finding_pattern_split5 by (rule pattern_rule_capture)

lemma parse_line1_rule: "parse_line1 l = Some (file_path, f) \<Longrightarrow> \<exists>t. rule f = CHR ''@'' # t"
  by (auto simp: parse_line1_def split: option.splits bind_splits dest!: error_pattern_rule)

lemma parse_line2_rule: "parse_line2 cf l = Some (file_path, f) \<Longrightarrow> \<exists>t. rule f = CHR ''@'' # t"
  by (auto simp: parse_line2_def split: option.splits bind_splits if_splits dest!: finding_pattern_rule)

text \<open>
  C2, where the code departs from it. Both patterns end in \<open>(@[\w-]+/[\w-]+)$\<close>, so the
  rule identifier of every Finding, of either script, begins with \<open>@\<close>: no input
  yields a Finding with an un-scoped rule such as \<open>react-hooks/exhaustive-deps\<close>. The
  last conjunct runs the second script on two lines of its own sample of lint output
  (a file line and a \<open>react-hooks/exhaustive-deps\<close> warning): no Finding.
\<close>

theorem rule_always_scoped:
  "(parse_line1 l = Some (file_path, f) \<longrightarrow> startswith (rule f) ''@'')
   \<and> (parse_line2 cf l = Some (file_path, f) \<longrightarrow> startswith (rule f) ''@'')
   \<and> parse2 (''/Users/jasonsmacbookpro2022/canvas/src/components/DoctorAutocomplete.tsx'' @ [CHR 0x0A] @
       ''  119:34  warning  React Hook useCallback received a function whose dependencies are unknown. Pass an inline function instead  react-hooks/exhaustive-deps'')
     = no_aggregates"
proof (intro conjI impI)
  assume "parse_line1 l = Some (file_path, f)"
  from parse_line1_rule [OF this] show "startswith (rule f) ''@''" by (auto simp: startswith_def)
next
  assume "parse_line2 cf l = Some (file_path, f)"
  from parse_line2_rule [OF this] show "startswith (rule f) ''@''" by (auto simp: startswith_def)
next
  show "parse2 (''/Users/jasonsmacbookpro2022/canvas/src/components/DoctorAutocomplete.tsx'' @ [CHR 0x0A] @
       ''  119:34  warning  React Hook useCallback received a function whose dependencies are unknown. Pass an inline function instead  react-hooks/exhaustive-deps'')
     = no_aggregates" by code_simp
qed

text \<open>The theorem at a line of each script that does parse.\<close>

theorem rule_always_scoped_witness:
  "startswith (rule \<lparr>line = ''1'', column = ''2'', severity = ''error'', message = ''m'',
                     rule = ''@a/b''\<rparr>) ''@''
   \<and> startswith (rule \<lparr>line = ''3'', column = ''4'', severity = ''warning'', message = ''n'',
                       rule = ''@c/d''\<rparr>) ''@''"
proof -
  have 1: "parse_line1 ''/a/src/lib/x.ts 1:2 error m @a/b''
           = Some (''/a/src/lib/x.ts'',
                   \<lparr>line = ''1'', column = ''2'', severity = ''error'', message = ''m'',
                    rule = ''@a/b''\<rparr>)"
    by code_simp
  have 2: "parse_line2 (Some ''/a/src/lib/x.ts'') ''  3:4  warning  n  @c/d''
           = Some (''/a/src/lib/x.ts'',
                   \<lparr>line = ''3'', column = ''4'', severity = ''warning'', message = ''n'',
                    rule = ''@c/d''\<rparr>)"
    by code_simp
  from rule_always_scoped
         [where l = "''/a/src/lib/x.ts 1:2 error m @a/b''" and file_path = "''/a/src/lib/x.ts''"
            and f = "\<lparr>line = ''1'', column = ''2'', severity = ''error'', message = ''m'',
                      rule = ''@a/b''\<rparr>"] 1
  have a: "startswith (rule \<lparr>line = ''1'', column = ''2'', severity = ''error'', message = ''m'',
                     rule = ''@a/b''\<rparr>) ''@''" by blast
  from rule_always_scoped
         [where l = "''  3:4  warning  n  @c/d''" and file_path = "''/a/src/lib/x.ts''"
            and cf = "Some ''/a/src/lib/x.ts''"
            and f = "\<lparr>line = ''3'', column = ''4'', severity = ''warning'', message = ''n'',
                      rule = ''@c/d''\<rparr>"] 2
  have b: "startswith (rule \<lparr>line = ''3'', column = ''4'', severity = ''warning'', message = ''n'',
                       rule = ''@c/d''\<rparr>) ''@''" by blast
  from a b show ?thesis by (rule conjI)
qed

section \<open>The ranking of the rules\<close>





















section \<open>The file a Finding is attributed to\<close>

lemma nearest_snoc: "nearest_file_line (ls @ [l]) = (if is_file_line l then Some l else nearest_file_line ls)"
  by (simp add: nearest_file_line_def)

lemma loop2_snoc: "loop2 (ls @ [l]) = step2 (loop2 ls) l"
  by (simp add: loop2_def)

lemma cursor_loop2: "fst (loop2 ls) = map_option strip (nearest_file_line ls)"
proof (induction ls rule: rev_induct)
  case Nil
  show ?case by (simp add: loop2_def nearest_file_line_def)
next
  case (snoc l ls)
  then show ?case
    by (cases "loop2 ls") (simp add: loop2_snoc nearest_snoc step2_def split: option.splits prod.splits)
qed

lemma parse_line2_None: "parse_line2 None l = None"
  by (simp add: parse_line2_def)

lemma no_cursor_no_finding: "nearest_file_line ls = None \<Longrightarrow> snd (loop2 ls) = no_aggregates"
proof (induction ls rule: rev_induct)
  case Nil
  show ?case by (simp add: loop2_def)
next
  case (snoc l ls)
  from snoc.prems have nf: "\<not> is_file_line l" and n: "nearest_file_line ls = None"
    by (simp_all add: nearest_snoc split: if_splits)
  from n have "fst (loop2 ls) = None" by (simp add: cursor_loop2)
  with snoc.IH[OF n] nf show ?case
    by (cases "loop2 ls") (simp add: loop2_snoc step2_def parse_line2_None)
qed

lemma prefix_match_space: "re_match finding_prefix l \<noteq> None \<Longrightarrow> \<exists>x xs. l = x # xs \<and> is_space x"
  by (cases l) (auto simp: re_match_def finding_prefix_def bt_Bol bt_Plus split: if_splits)

lemma is_space_slash: "\<not> is_space CHR ''/''"
  by code_simp

lemma finding_line_not_file_line: "parse_line2 cf l = Some x \<Longrightarrow> \<not> is_file_line l"
proof
  assume a: "parse_line2 cf l = Some x" and b: "is_file_line l"
  from a have "re_match finding_prefix l \<noteq> None"
    by (auto simp: parse_line2_def split: option.splits if_splits)
  then obtain y ys where "l = y # ys" "is_space y" using prefix_match_space by blast
  with b is_space_slash show False by (auto simp: is_file_line_def startswith_def)
qed

text \<open>
  C5. In the second script, let \<open>l\<close> be a line read after the lines \<open>ls\<close>. If \<open>l\<close> yields
  a Finding, its file is the (stripped) text of the nearest file-path line before it,
  and the step records the Finding under that file. If no file-path line precedes
  \<open>l\<close>, the aggregates are still empty after \<open>l\<close>: it yields no Finding.
\<close>

theorem finding_goes_to_nearest_file_line:
  "(parse_line2 (fst (loop2 ls)) l = Some (file_path, f) \<longrightarrow>
      (\<exists>p. nearest_file_line ls = Some p \<and> file_path = strip p)
      \<and> snd (loop2 (ls @ [l])) = record_finding file_path f (snd (loop2 ls)))
   \<and> (nearest_file_line ls = None \<longrightarrow> snd (loop2 (ls @ [l])) = no_aggregates)"
proof (intro conjI impI)
  assume a: "parse_line2 (fst (loop2 ls)) l = Some (file_path, f)"
  then have "fst (loop2 ls) = Some file_path"
    by (auto simp: parse_line2_def split: option.splits if_splits bind_splits)
  then show "\<exists>p. nearest_file_line ls = Some p \<and> file_path = strip p"
    by (auto simp: cursor_loop2)
  from a have "\<not> is_file_line l" by (rule finding_line_not_file_line)
  with a show "snd (loop2 (ls @ [l])) = record_finding file_path f (snd (loop2 ls))"
    by (cases "loop2 ls") (simp add: loop2_snoc step2_def)
next
  assume n: "nearest_file_line ls = None"
  then have c: "fst (loop2 ls) = None" and s: "snd (loop2 ls) = no_aggregates"
    by (simp_all add: cursor_loop2 no_cursor_no_finding)
  then show "snd (loop2 (ls @ [l])) = no_aggregates"
    by (cases "loop2 ls") (simp add: loop2_snoc step2_def parse_line2_None)
qed


text \<open>
  A finding line after two file lines goes to the second; the same line with no file
  line before it is dropped.
\<close>

theorem finding_goes_to_nearest_file_line_witness:
  "errors_by_file (snd (loop2 ([''/a/src/lib/x.ts'', ''/a/src/lib/y.ts  ''] @ [''  1:2  error  m  @a/b''])))
     = [(''/a/src/lib/y.ts'',
         [\<lparr>line = ''1'', column = ''2'', severity = ''error'', message = ''m'', rule = ''@a/b''\<rparr>])]
   \<and> snd (loop2 ([''some text''] @ [''  1:2  error  m  @a/b''])) = no_aggregates"
proof -
  let ?f = "\<lparr>line = ''1'', column = ''2'', severity = ''error'', message = ''m'', rule = ''@a/b''\<rparr>"
  let ?ls = "[''/a/src/lib/x.ts'', ''/a/src/lib/y.ts  '']"
  have p: "parse_line2 (fst (loop2 ?ls)) ''  1:2  error  m  @a/b'' = Some (''/a/src/lib/y.ts'', ?f)"
    by code_simp
  from finding_goes_to_nearest_file_line
         [where ls = ?ls and l = "''  1:2  error  m  @a/b''" and file_path = "''/a/src/lib/y.ts''"
            and f = ?f] p
  have "snd (loop2 (?ls @ [''  1:2  error  m  @a/b'']))
        = record_finding ''/a/src/lib/y.ts'' ?f (snd (loop2 ?ls))" by blast
  moreover have "errors_by_file (record_finding ''/a/src/lib/y.ts'' ?f (snd (loop2 ?ls)))
        = [(''/a/src/lib/y.ts'', [?f])]" by code_simp
  ultimately have a: "errors_by_file (snd (loop2 (?ls @ [''  1:2  error  m  @a/b''])))
        = [(''/a/src/lib/y.ts'', [?f])]" by simp
  have n: "nearest_file_line [''some text''] = None" by code_simp
  from finding_goes_to_nearest_file_line
         [where ls = "[''some text'']" and l = "''  1:2  error  m  @a/b''"] n
  have b: "snd (loop2 ([''some text''] @ [''  1:2  error  m  @a/b''])) = no_aggregates" by blast
  from a b show ?thesis by (rule conjI)
qed

section \<open>A message wrapped over several lines\<close>

lemma parse_line1_no_anchor: "\<not> has_rule_anchor (strip l) \<Longrightarrow> parse_line1 l = None"
  using error_pattern_anchor [of "strip l"] by (auto simp: parse_line1_def split: option.splits)

lemma parse_line2_no_anchor: "\<not> has_rule_anchor l \<Longrightarrow> parse_line2 cf l = None"
  using finding_pattern_anchor [of l] by (auto simp: parse_line2_def split: option.splits)

lemma parse_line1_no_match: "re_match error_pattern (strip l) = None \<Longrightarrow> parse_line1 l = None"
  by (simp add: parse_line1_def)

lemma parse_line2_no_match: "re_match finding_pattern l = None \<Longrightarrow> parse_line2 cf l = None"
  by (simp add: parse_line2_def split: option.splits)

lemma step1_idle: "parse_line1 l = None \<Longrightarrow> step1 ag l = ag"
  by (simp add: step1_def)

lemma step2_idle: "\<not> is_file_line l \<Longrightarrow> parse_line2 (fst st) l = None \<Longrightarrow> step2 st l = st"
  by (cases st) (simp add: step2_def)

lemma foldl_step1_idle: "list_all (\<lambda>l. parse_line1 l = None) ls \<Longrightarrow> foldl step1 ag ls = ag"
  by (induction ls) (simp_all add: step1_idle)

lemma foldl_step2_idle:
  "list_all (\<lambda>l. \<not> is_file_line l \<and> parse_line2 (fst st) l = None) ls \<Longrightarrow> foldl step2 st ls = st"
  by (induction ls) (simp_all add: step2_idle)

text \<open>
  C6, as amended. A finding whose message is wrapped arrives as a first physical line
  \<open>first\<close> followed by the lines \<open>conts\<close> that carry the rest of the message. Suppose
  that \<open>first\<close> (stripped, in the first script) does not end with whitespace and a text
  of the shape of a rule identifier, that no line of \<open>conts\<close> is by itself a complete
  finding line of the script (it does not match the script's finding pattern), and, in
  the second script, that no line of the entry is a file-path line. Then the entry
  yields no Finding and leaves no trace: after any lines \<open>pre\<close> before it and any lines
  \<open>post\<close> after it, the loop ends in the state it ends in without the entry's lines,
  aggregates and (second script) cursor alike. The loops are total functions: nothing
  is raised.
\<close>

theorem wrapped_finding_dropped:
  "(\<not> has_rule_anchor (strip first)
      \<and> list_all (\<lambda>l. re_match error_pattern (strip l) = None) conts
      \<longrightarrow> loop1 (pre @ first # conts @ post) = loop1 (pre @ post))
   \<and> (\<not> has_rule_anchor first \<and> \<not> is_file_line first
      \<and> list_all (\<lambda>l. \<not> is_file_line l \<and> re_match finding_pattern l = None) conts
      \<longrightarrow> loop2 (pre @ first # conts @ post) = loop2 (pre @ post))"
proof (intro conjI impI)
  assume a: "\<not> has_rule_anchor (strip first)
             \<and> list_all (\<lambda>l. re_match error_pattern (strip l) = None) conts"
  then have "list_all (\<lambda>l. parse_line1 l = None) (first # conts)"
    by (auto simp: list_all_iff parse_line1_no_anchor parse_line1_no_match)
  then have "foldl step1 ag (first # conts) = ag" for ag by (rule foldl_step1_idle)
  then show "loop1 (pre @ first # conts @ post) = loop1 (pre @ post)"
    by (simp only: loop1_def foldl_append append_Cons [symmetric] append_assoc [symmetric])
next
  assume a: "\<not> has_rule_anchor first \<and> \<not> is_file_line first
             \<and> list_all (\<lambda>l. \<not> is_file_line l \<and> re_match finding_pattern l = None) conts"
  then have "list_all (\<lambda>l. \<not> is_file_line l \<and> parse_line2 (fst st) l = None) (first # conts)" for st
    by (auto simp: list_all_iff parse_line2_no_anchor parse_line2_no_match)
  then have "foldl step2 st (first # conts) = st" for st by (rule foldl_step2_idle)
  then show "loop2 (pre @ first # conts @ post) = loop2 (pre @ post)"
    by (simp only: loop2_def foldl_append append_Cons [symmetric] append_assoc [symmetric])
qed

text \<open>
  A warning wrapped after \<open>has missing\<close>, between two findings on one line each, in the
  shape each script reads.
\<close>

theorem wrapped_finding_dropped_witness:
  "loop1 ([''/a/src/lib/x.ts 1:1 error m @a/b'']
          @ ''/a/src/lib/x.ts 12:3 warning React Hook useEffect has missing''
          # [''   dependencies. Either include them or remove the array  @scope/some-rule'']
          @ [''/a/src/lib/x.ts 9:9 error n @c/d''])
     = loop1 ([''/a/src/lib/x.ts 1:1 error m @a/b''] @ [''/a/src/lib/x.ts 9:9 error n @c/d''])
   \<and> loop2 ([''/a/src/lib/x.ts'', ''  1:1  error  m  @a/b'']
            @ ''  12:3  warning  React Hook useEffect has missing''
            # [''   dependencies. Either include them or remove the array  @scope/some-rule'']
            @ [''  9:9  error  n  @c/d''])
     = loop2 ([''/a/src/lib/x.ts'', ''  1:1  error  m  @a/b''] @ [''  9:9  error  n  @c/d''])"
proof -
  have a: "\<not> has_rule_anchor (strip ''/a/src/lib/x.ts 12:3 warning React Hook useEffect has missing'')
           \<and> list_all (\<lambda>l. re_match error_pattern (strip l) = None)
               [''   dependencies. Either include them or remove the array  @scope/some-rule'']"
    by code_simp
  have b: "\<not> has_rule_anchor ''  12:3  warning  React Hook useEffect has missing''
           \<and> \<not> is_file_line ''  12:3  warning  React Hook useEffect has missing''
           \<and> list_all (\<lambda>l. \<not> is_file_line l \<and> re_match finding_pattern l = None)
               [''   dependencies. Either include them or remove the array  @scope/some-rule'']"
    by code_simp
  from wrapped_finding_dropped
         [where first = "''/a/src/lib/x.ts 12:3 warning React Hook useEffect has missing''"
            and conts = "[''   dependencies. Either include them or remove the array  @scope/some-rule'']"
            and pre = "[''/a/src/lib/x.ts 1:1 error m @a/b'']"
            and post = "[''/a/src/lib/x.ts 9:9 error n @c/d'']"] a
  have 1: "loop1 ([''/a/src/lib/x.ts 1:1 error m @a/b'']
          @ ''/a/src/lib/x.ts 12:3 warning React Hook useEffect has missing''
          # [''   dependencies. Either include them or remove the array  @scope/some-rule'']
          @ [''/a/src/lib/x.ts 9:9 error n @c/d''])
     = loop1 ([''/a/src/lib/x.ts 1:1 error m @a/b''] @ [''/a/src/lib/x.ts 9:9 error n @c/d''])"
    by blast
  from wrapped_finding_dropped
         [where first = "''  12:3  warning  React Hook useEffect has missing''"
            and conts = "[''   dependencies. Either include them or remove the array  @scope/some-rule'']"
            and pre = "[''/a/src/lib/x.ts'', ''  1:1  error  m  @a/b'']"
            and post = "[''  9:9  error  n  @c/d'']"] b
  have 2: "loop2 ([''/a/src/lib/x.ts'', ''  1:1  error  m  @a/b'']
            @ ''  12:3  warning  React Hook useEffect has missing''
            # [''   dependencies. Either include them or remove the array  @scope/some-rule'']
            @ [''  9:9  error  n  @c/d''])
     = loop2 ([''/a/src/lib/x.ts'', ''  1:1  error  m  @a/b''] @ [''  9:9  error  n  @c/d''])"
    by blast
  from 1 2 show ?thesis by (rule conjI)
qed

text \<open>
  C6 as written fails on three wrapped entries. In the first two, the first physical
  line of the message ends with \<open>@types/node\<close>, a text of the shape of a rule
  identifier, while the rule of the finding stands on the second line: each script
  records a Finding, under the rule \<open>@types/node\<close>. In the third, the rest of the
  message begins with a path: the second script takes that line for a file, and the
  next finding, which counts under \<open>lib\<close> when the entry's lines are absent, no longer
  counts under any directory.
\<close>

theorem wrapped_finding_recorded_or_cursor_moved:
  "errors_by_type
     (parse1 (''/a/src/lib/x.ts 1:2 error Cannot find the types, install  @types/node'' @ [CHR 0x0A] @
              ''   or declare the module  @typescript-eslint/no-require-imports''))
     = [(''@types/node'', 1)]
   \<and> errors_by_type
       (parse2 (''/a/src/lib/x.ts'' @ [CHR 0x0A] @
                ''  1:2  error  Cannot find the types, install  @types/node'' @ [CHR 0x0A] @
                ''   or declare the module  @typescript-eslint/no-require-imports''))
     = [(''@types/node'', 1)]
   \<and> errors_by_directory
       (parse2 (''/a/src/lib/x.ts'' @ [CHR 0x0A] @
                ''  1:2  warning  Imports from the folder'' @ [CHR 0x0A] @
                ''/b/legacy are not allowed here  @scope/no-legacy'' @ [CHR 0x0A] @
                ''  3:4  error  m  @a/b''))
     = []
   \<and> errors_by_directory
       (parse2 (''/a/src/lib/x.ts'' @ [CHR 0x0A] @ ''  3:4  error  m  @a/b''))
     = [(''lib'', 1)]"
  by code_simp

section \<open>The directory a Finding is counted under\<close>

lemma index_of_first: "x \<notin> set pre \<Longrightarrow> index_of x (pre @ x # rest) = Some (length pre)"
  by (induction pre) auto

lemma directory_of_after_src:
  assumes "parts p = pre @ ''src'' # rest" "''src'' \<notin> set pre"
  shows "directory_of p = (case rest of [] \<Rightarrow> None | d # _ \<Rightarrow> Some d)"
  using assms by (simp add: directory_of_def index_of_first nth_append split: list.splits)

text \<open>
  C9, as amended. Let the parts of the path be \<open>pre\<close>, then \<open>src\<close>, then \<open>rest\<close>, with no
  \<open>src\<close> in \<open>pre\<close>: this \<open>src\<close> is the first one. The grouping key is the first part of
  \<open>rest\<close>, and a Finding of the path is counted under it; when \<open>rest\<close> is empty there
  is no key and the directory counts stay as they are. So the key of a file directly
  under the first \<open>src\<close> (\<open>rest\<close> is the file name alone) is the file's name.
\<close>

theorem directory_key_after_first_src:
  "parts p = pre @ ''src'' # rest \<Longrightarrow> ''src'' \<notin> set pre \<Longrightarrow>
   directory_of p = (case rest of [] \<Rightarrow> None | d # _ \<Rightarrow> Some d)
   \<and> errors_by_directory (record_finding p f ag)
       = (case rest of
            [] \<Rightarrow> errors_by_directory ag
          | d # _ \<Rightarrow> dict_incr d (errors_by_directory ag))"
  by (simp add: directory_of_after_src record_finding_def Let_def split: list.splits)

theorem directory_key_after_first_src_witness:
  "directory_of ''/a/src/Foo.tsx'' = Some ''Foo.tsx'' \<and> directory_of ''/a/src'' = None"
proof -
  have 1: "parts ''/a/src/Foo.tsx'' = [''/'', ''a''] @ ''src'' # [''Foo.tsx'']" by code_simp
  have 2: "parts ''/a/src'' = [''/'', ''a''] @ ''src'' # []" by code_simp
  have 3: "''src'' \<notin> set [''/'', ''a'']" by simp
  from directory_key_after_first_src [OF 1 3] directory_key_after_first_src [OF 2 3]
  show ?thesis by simp
qed

text \<open>
  C9 as written fails where \<open>src\<close> occurs twice. The last segment of \<open>/src/a/src\<close> is
  \<open>src\<close>, yet a Finding of that path is counted under \<open>a\<close>; and \<open>Foo.tsx\<close> lies directly
  under the \<open>src\<close> of \<open>/src/a/src/Foo.tsx\<close>, yet its key is \<open>a\<close>, not the file's name.
\<close>

theorem last_src_segment_still_counted:
  "last (parts ''/src/a/src'') = ''src''
   \<and> errors_by_directory (parse1 ''/src/a/src 1:2 error m @a/b'') = [(''a'', 1)]
   \<and> parts ''/src/a/src/Foo.tsx'' = [''/'', ''src'', ''a'', ''src'', ''Foo.tsx'']
   \<and> errors_by_directory (parse1 ''/src/a/src/Foo.tsx 1:2 error m @a/b'') = [(''a'', 1)]"
  by code_simp

end
